theory Spec2Isabelle
  imports Main "HOL-Library.Sublist"
begin

section \<open>Python values and strings\<close>

text \<open>
  Cell text is modelled as \<^typ>\<open>string\<close>, exactly for ASCII text: the character tests
  below are those of Python's \<^verbatim>\<open>str.isdigit\<close>, \<^verbatim>\<open>str.isalpha\<close>, \<^verbatim>\<open>str.isspace\<close> and
  \<^verbatim>\<open>str.lower\<close> on ASCII characters. A character outside ASCII stands for one byte of
  its UTF-8 encoding; it is neither a digit, a letter nor white space, and \<open>lower\<close>
  leaves it alone (Python would also fold accented capitals and strip non-ASCII spaces).
\<close>

datatype py_error = ValueError

text \<open>The scalars a cell of the grid can hold (JSON strings, integers, booleans, null).\<close>

datatype pyval = VStr string | VInt int | VBool bool | VNone

text \<open>A sheet: a Python dictionary from cell reference to value, in insertion order.\<close>

type_synonym sheet = "(string \<times> pyval) list"

definition isdigit :: "char \<Rightarrow> bool" where
  "isdigit c = (48 \<le> (of_char c :: nat) \<and> (of_char c :: nat) \<le> 57)"

definition isalpha :: "char \<Rightarrow> bool" where
  "isalpha c = ((65 \<le> (of_char c :: nat) \<and> (of_char c :: nat) \<le> 90) \<or>
                (97 \<le> (of_char c :: nat) \<and> (of_char c :: nat) \<le> 122))"

definition isspace :: "char \<Rightarrow> bool" where
  "isspace c = ((9 \<le> (of_char c :: nat) \<and> (of_char c :: nat) \<le> 13) \<or>
                (28 \<le> (of_char c :: nat) \<and> (of_char c :: nat) \<le> 32))"

definition lower_chr :: "char \<Rightarrow> char" where
  "lower_chr c = (if 65 \<le> (of_char c :: nat) \<and> (of_char c :: nat) \<le> 90
                  then char_of ((of_char c :: nat) + 32) else c)"

definition lower :: "string \<Rightarrow> string" where
  "lower s = map lower_chr s"

definition strip :: "string \<Rightarrow> string" where
  "strip s = rev (dropWhile isspace (rev (dropWhile isspace s)))"


text \<open>\<^verbatim>\<open>int(s)\<close> on a non-empty string of ASCII digits: the decimal value.\<close>

definition digit_val :: "char \<Rightarrow> int" where
  "digit_val c = int (of_char c) - 48"

definition int_of_digits :: "string \<Rightarrow> int" where
  "int_of_digits s = foldl (\<lambda>a c. 10 * a + digit_val c) 0 s"

text \<open>\<^verbatim>\<open>str(n)\<close> for an integer: decimal digits, a minus sign when negative.\<close>

fun str_of_nat :: "nat \<Rightarrow> string" where
  "str_of_nat n = (if n < 10 then [char_of (48 + n)]
                   else str_of_nat (n div 10) @ [char_of (48 + n mod 10)])"

declare str_of_nat.simps [simp del]

definition str_of_int :: "int \<Rightarrow> string" where
  "str_of_int i = (if i < 0 then CHR ''-'' # str_of_nat (nat (- i)) else str_of_nat (nat i))"

text \<open>\<^verbatim>\<open>str(v)\<close> for a cell value.\<close>

fun py_str :: "pyval \<Rightarrow> string" where
  "py_str (VStr s) = s"
| "py_str (VInt i) = str_of_int i"
| "py_str (VBool b) = (if b then ''True'' else ''False'')"
| "py_str VNone = ''None''"

text \<open>Python truthiness of a cell value.\<close>

fun truthy :: "pyval \<Rightarrow> bool" where
  "truthy (VStr s) = (s \<noteq> [])"
| "truthy (VInt i) = (i \<noteq> 0)"
| "truthy (VBool b) = b"
| "truthy VNone = False"

section \<open>Coordinate codec\<close>

text \<open>
  \<^verbatim>\<open>split_cell_reference\<close> (both copies in the repository are the same): the letters of
  the reference, and \<^verbatim>\<open>int\<close> of its digits, which raises \<^verbatim>\<open>ValueError\<close> on the
  empty string.
\<close>

definition split_cell_reference :: "string \<Rightarrow> py_error + (string \<times> int)" where
  "split_cell_reference cell_ref =
     (let letters = filter isalpha cell_ref;
          digits = filter isdigit cell_ref
      in if digits = [] then Inl ValueError else Inr (letters, int_of_digits digits))"

section \<open>Timesheet events (\<^verbatim>\<open>extract_timesheet_events.py\<close>)\<close>




text \<open>A header section, as the dictionary \<^verbatim>\<open>find_timesheet_headers\<close> appends.\<close>

record header_section =
  format :: string
  event_col :: string
  date_col :: string
  time_col :: string
  start_row :: int

text \<open>
  The inner loop of \<^verbatim>\<open>find_timesheet_headers\<close>: one pass over all cells of the sheet,
  looking on row \<open>row\<close> for a label accepted by \<open>p\<close> (first branch) or else by \<open>q\<close>
  (\<^verbatim>\<open>elif\<close> branch). The pair holds the two columns found so far; a later cell overwrites
  an earlier one. \<^verbatim>\<open>split_cell_reference\<close> is called on every string cell and its
  \<^verbatim>\<open>ValueError\<close> propagates.
\<close>

fun scan_row ::
  "(string \<Rightarrow> bool) \<Rightarrow> (string \<Rightarrow> bool) \<Rightarrow> int \<Rightarrow> sheet \<Rightarrow>
   string option \<times> string option \<Rightarrow> py_error + (string option \<times> string option)" where
  "scan_row p q row [] found = Inr found"
| "scan_row p q row ((other_cell, other_value) # rest) found =
     (case other_value of
        VStr s \<Rightarrow>
          (case split_cell_reference other_cell of
             Inl e \<Rightarrow> Inl e
           | Inr (other_col, other_row) \<Rightarrow>
               scan_row p q row rest
                 (if other_row = row then
                    (if p (lower (strip s)) then (Some other_col, snd found)
                     else if q (lower (strip s)) then (fst found, Some other_col)
                     else found)
                  else found))
      | _ \<Rightarrow> scan_row p q row rest found)"

text \<open>
  The body of the outer loop for one cell: the sections it appends (none or one).
  Pattern 1 (english) is anchored on a cell reading "event"; pattern 2 (spanish) on a cell
  reading "date" whose reference starts with \<^verbatim>\<open>A\<close>, and accepts "hrs" or "time".
\<close>

definition header_of_cell :: "sheet \<Rightarrow> string \<Rightarrow> pyval \<Rightarrow> py_error + header_section list" where
  "header_of_cell data cell_ref val =
     (case val of
        VStr s \<Rightarrow>
          (let value_clean = lower (strip s) in
           if value_clean = ''event'' then
             (case split_cell_reference cell_ref of
                Inl e \<Rightarrow> Inl e
              | Inr (col_event, row) \<Rightarrow>
                  (case scan_row (\<lambda>v. v = ''date'') (\<lambda>v. v = ''time'') row data (None, None) of
                     Inl e \<Rightarrow> Inl e
                   | Inr (Some col_date, Some col_time) \<Rightarrow>
                       Inr [\<lparr>format = ''english'', event_col = col_event, date_col = col_date,
                             time_col = col_time, start_row = row + 1\<rparr>]
                   | Inr _ \<Rightarrow> Inr []))
           else if value_clean = ''date'' \<and> prefix ''A'' cell_ref then
             (case split_cell_reference cell_ref of
                Inl e \<Rightarrow> Inl e
              | Inr (col_date, row) \<Rightarrow>
                  (case scan_row (\<lambda>v. v = ''hrs'' \<or> v = ''time'') (\<lambda>v. v = ''event'') row data
                          (None, None) of
                     Inl e \<Rightarrow> Inl e
                   | Inr (Some col_time, Some col_event) \<Rightarrow>
                       Inr [\<lparr>format = ''spanish'', event_col = col_event, date_col = col_date,
                             time_col = col_time, start_row = row + 1\<rparr>]
                   | Inr _ \<Rightarrow> Inr []))
           else Inr [])
      | _ \<Rightarrow> Inr [])"

fun headers_loop :: "sheet \<Rightarrow> sheet \<Rightarrow> header_section list \<Rightarrow> py_error + header_section list" where
  "headers_loop data [] header_sections = Inr header_sections"
| "headers_loop data ((cell_ref, val) # rest) header_sections =
     (case header_of_cell data cell_ref val of
        Inl e \<Rightarrow> Inl e
      | Inr new \<Rightarrow> headers_loop data rest (header_sections @ new))"

definition find_timesheet_headers :: "sheet \<Rightarrow> py_error + header_section list" where
  "find_timesheet_headers data = headers_loop data data []"

text \<open>An event, as the dictionary \<^verbatim>\<open>extract_events_from_section\<close> appends.\<close>

record event =
  Event :: string
  Date :: "string option"
  Time :: "string option"
  Section :: string
  Row :: int






section \<open>Category classifier (\<^verbatim>\<open>basic_analyzer.py\<close>)\<close>

text \<open>
  The keys of the \<^verbatim>\<open>categories\<close> dictionary, in insertion order. A letter outside ASCII
  is written as the bytes of its UTF-8 encoding.
\<close>

definition category_names :: "string list" where
  "category_names =
     [''Alije/Transferencia'',
      ''Carga'',
      ''Descarga'',
      ''Llegada/Salida'',
      ''Muestreo'',
      ''Inspecci'' @ [CHR 0xC3, CHR 0xB3] @ ''n'',
      ''Operaciones de Tanque'',
      ''Limpieza'',
      ''Certificaci'' @ [CHR 0xC3, CHR 0xB3] @ ''n'',
      ''Otros'']"




text \<open>\<^verbatim>\<open>categories[category].append(event)\<close>.\<close>

definition append_to :: "(string \<times> 'a list) list \<Rightarrow> string \<Rightarrow> 'a \<Rightarrow> (string \<times> 'a list) list" where
  "append_to categories category x =
     map (\<lambda>(k, v). if k = category then (k, v @ [x]) else (k, v)) categories"


section \<open>Labelled fields (\<^verbatim>\<open>extract_report_header.py\<close>, \<^verbatim>\<open>extract_operational_notes.py\<close>)\<close>

text \<open>\<^verbatim>\<open>d[key] = value\<close> on a dictionary kept in insertion order.\<close>

fun dict_set :: "('k \<times> 'v) list \<Rightarrow> 'k \<Rightarrow> 'v \<Rightarrow> ('k \<times> 'v) list" where
  "dict_set [] key v = [(key, v)]"
| "dict_set ((k, w) # rest) key v =
     (if k = key then (key, v) # rest else (k, w) # dict_set rest key v)"

text \<open>\<^verbatim>\<open>s.split(':', 1)[1]\<close> for a text that holds a colon: what follows the first colon.\<close>

definition after_first_colon :: "string \<Rightarrow> string" where
  "after_first_colon s = drop 1 (dropWhile (\<lambda>c. c \<noteq> CHR '':'') s)"

subsection \<open>\<^verbatim>\<open>extract_operational_data\<close>\<close>

definition field_mapping :: "(string \<times> string list) list" where
  "field_mapping =
     [(''file_number'', [''File N'' @ [CHR 0xC2, CHR 0xB0], ''File No'']),
      (''terminal'', [''Terminal'']),
      (''inspector'', [''Inspector'', ''Surveyor'']),
      (''revised_by'', [''Revised by'']),
      (''approved_by'', [''Approved by'']),
      (''operation_date'', [''Date of Operation completed'']),
      (''report_date'', [''Date of Report Issuing'']),
      (''note'', [''NOTE''])]"

text \<open>
  The loop over the names of one field, with its \<^verbatim>\<open>break\<close>: the first name that the
  cell text starts with (followed by a colon) stores the trimmed text after the first
  colon, whatever that text is.
\<close>

fun names_loop ::
  "string \<Rightarrow> string \<Rightarrow> string list \<Rightarrow> (string \<times> string) list \<Rightarrow> (string \<times> string) list" where
  "names_loop value_clean field_key [] operational_data = operational_data"
| "names_loop value_clean field_key (field_name # rest) operational_data =
     (if prefix (field_name @ '':'') value_clean
      then dict_set operational_data field_key (strip (after_first_colon value_clean))
      else names_loop value_clean field_key rest operational_data)"

fun fields_loop ::
  "string \<Rightarrow> (string \<times> string list) list \<Rightarrow> (string \<times> string) list \<Rightarrow>
   (string \<times> string) list" where
  "fields_loop value_clean [] operational_data = operational_data"
| "fields_loop value_clean ((field_key, field_names) # rest) operational_data =
     fields_loop value_clean rest (names_loop value_clean field_key field_names operational_data)"

text \<open>Cells that are not non-empty strings are skipped.\<close>

definition extract_operational_data :: "sheet \<Rightarrow> (string \<times> string) list" where
  "extract_operational_data sheet_data =
     foldl (\<lambda>operational_data (cell, val).
              case val of
                VStr s \<Rightarrow> if s = [] then operational_data
                          else fields_loop (strip s) field_mapping operational_data
              | _ \<Rightarrow> operational_data)
       [] sheet_data"

subsection \<open>\<^verbatim>\<open>extract_timesheet_header\<close>: the labelled-inline loop\<close>

definition header_fields :: "(string \<times> string) list" where
  "header_fields =
     [(''vessel'', ''Vessel''), (''terminal'', ''Terminal''), (''location'', ''Location''),
      (''product'', ''Product''), (''date'', ''Date''), (''file_no'', ''File N'')]"

text \<open>
  The first inner loop of \<^verbatim>\<open>extract_timesheet_header\<close> for one cell text ("Campo:
  Valor"): a field not yet set, whose name occurs in a text that holds a colon, is set to
  the trimmed text after the first colon unless that text is empty, is the field name
  itself or has a single character.
\<close>

fun inline_loop ::
  "string \<Rightarrow> (string \<times> string) list \<Rightarrow> (string \<times> string) list \<Rightarrow> (string \<times> string) list" where
  "inline_loop value_clean [] header_data = header_data"
| "inline_loop value_clean ((field_key, field_name) # rest) header_data =
     inline_loop value_clean rest
       (if map_of header_data field_key = None \<and> sublist field_name value_clean \<and>
           CHR '':'' \<in> set value_clean
        then (let field_value = strip (after_first_colon value_clean)
              in if field_value \<noteq> [] \<and> field_value \<noteq> field_name \<and> 1 < length field_value
                 then dict_set header_data field_key field_value
                 else header_data)
        else header_data)"

subsection \<open>\<^verbatim>\<open>extract_pumping_data\<close>\<close>

text \<open>
  The structure found by \<^verbatim>\<open>find_notes_structure\<close>; its \<^verbatim>\<open>start_row\<close> is called
  \<open>notes_start_row\<close> here, the other name being taken by the header sections.
\<close>

record notes_structure =
  special_notes_found :: bool
  general_notes_found :: bool
  special_notes_col :: "string option"
  general_notes_col :: "string option"
  notes_start_row :: "int option"

text \<open>
  A stored pumping value: a text, or a number. \<open>Number m k\<close> stands for the
  \<^verbatim>\<open>float\<close> of the decimal \<open>m / 10 ^ k\<close>; rounding to binary floating point is not
  modelled, and comparisons are made on the decimal.
\<close>

datatype pumping_value = Number int nat | Text string

definition field_patterns :: "(string \<times> string) list" where
  "field_patterns =
     [(''pumping_time'', ''Pumping Time''), (''pumping_rate'', ''Pumping Rate''),
      (''last_cargo'', ''Last Cargo''), (''second_last'', ''Second Last''),
      (''third_last'', ''Third Last''),
      (''vessel_experience_factor'', ''Vessel Experience Factor'')]"

text \<open>
  What \<^verbatim>\<open>\d+[.,]?\d*\<close> takes, greedily, at the head of a text that starts with a digit:
  the integer digits and the fraction digits behind an optional point or comma.
\<close>

definition num_token :: "string \<Rightarrow> string \<times> string option" where
  "num_token s =
     (takeWhile isdigit s,
      case dropWhile isdigit s of
        [] \<Rightarrow> None
      | d # rest \<Rightarrow> if d = CHR ''.'' \<or> d = CHR '','' then Some (takeWhile isdigit rest) else None)"

text \<open>The length of the text a token stands for.\<close>

definition token_length :: "string \<times> string option \<Rightarrow> nat" where
  "token_length tok = length (fst tok) + (case snd tok of None \<Rightarrow> 0 | Some f \<Rightarrow> 1 + length f)"

text \<open>
  \<^verbatim>\<open>float(group.replace(',', '.'))\<close> of a token, negated when a minus sign preceded it.
\<close>

definition float_of_token :: "bool \<Rightarrow> string \<times> string option \<Rightarrow> pumping_value" where
  "float_of_token negative tok =
     (let frac = (case snd tok of None \<Rightarrow> [] | Some f \<Rightarrow> f);
          m = int_of_digits (fst tok @ frac)
      in Number (if negative then - m else m) (length frac))"

text \<open>
  \<^verbatim>\<open>re.search(r'(-?\d+[.,]?\d*)', s)\<close>: the leftmost match starts at the first digit, or
  at a minus sign that a digit follows.
\<close>

fun num_search :: "string \<Rightarrow> pumping_value option" where
  "num_search [] = None"
| "num_search (c # cs) =
     (if isdigit c then Some (float_of_token False (num_token (c # cs)))
      else if c = CHR ''-'' \<and> cs \<noteq> [] \<and> isdigit (hd cs)
           then Some (float_of_token True (num_token cs))
      else num_search cs)"

text \<open>\<^verbatim>\<open>re.match(r'^-?\d+[.,]?\d*$', s)\<close> on a trimmed text: the whole text is one number.\<close>

definition num_fullmatch :: "string \<Rightarrow> pumping_value option" where
  "num_fullmatch s =
     (let negative = (s \<noteq> [] \<and> hd s = CHR ''-'');
          body = (if negative then tl s else s)
      in if body \<noteq> [] \<and> isdigit (hd body) \<and> token_length (num_token body) = length body
         then Some (float_of_token negative (num_token body))
         else None)"

text \<open>
  The innermost loop of the first phase, for a label cell at \<open>col_offset\<close>,
  \<open>current_row\<close> whose text is \<open>value_clean\<close>: every field whose name occurs in the text
  takes the value of the cell below, when that cell exists and is truthy. For the two
  numeric fields the first number found in the value is stored, and nothing is stored
  when no number is found; \<^verbatim>\<open>float\<close> cannot fail on a matched number, so the
  \<^verbatim>\<open>except ValueError\<close> branch that would store the text is never taken.
\<close>

fun patterns_loop ::
  "sheet \<Rightarrow> string \<Rightarrow> int \<Rightarrow> string \<Rightarrow> (string \<times> string) list \<Rightarrow>
   (string \<times> pumping_value) list \<Rightarrow> (string \<times> pumping_value) list" where
  "patterns_loop sheet_data col_offset current_row value_clean [] pumping_data = pumping_data"
| "patterns_loop sheet_data col_offset current_row value_clean ((field_key, field_name) # rest)
     pumping_data =
     patterns_loop sheet_data col_offset current_row value_clean rest
       (if sublist field_name value_clean then
          (case map_of sheet_data (col_offset @ str_of_int (current_row + 1)) of
             None \<Rightarrow> pumping_data
           | Some field_value \<Rightarrow>
               if truthy field_value then
                 (let field_value_clean = strip (py_str field_value) in
                  if field_key = ''pumping_time'' \<or> field_key = ''pumping_rate'' then
                    (case num_search field_value_clean of
                       Some num \<Rightarrow> dict_set pumping_data field_key num
                     | None \<Rightarrow> pumping_data)
                  else dict_set pumping_data field_key (Text field_value_clean))
               else pumping_data)
        else pumping_data)"

text \<open>One cell of the scanned window.\<close>

definition window_cell ::
  "sheet \<Rightarrow> (string \<times> pumping_value) list \<Rightarrow> int \<times> string \<Rightarrow> (string \<times> pumping_value) list" where
  "window_cell sheet_data pumping_data rc =
     (case map_of sheet_data (snd rc @ str_of_int (fst rc)) of
        None \<Rightarrow> pumping_data
      | Some val \<Rightarrow>
          if truthy val
          then patterns_loop sheet_data (snd rc) (fst rc) (strip (py_str val)) field_patterns
                 pumping_data
          else pumping_data)"

text \<open>
  The second phase, for one cell: a cell that is a bare number fills the first numeric
  field still missing whose range it falls in (between -50 and 0, or below -100).
\<close>

definition fallback_cell ::
  "(string \<times> pumping_value) list \<Rightarrow> string \<times> pyval \<Rightarrow> (string \<times> pumping_value) list" where
  "fallback_cell pumping_data cell =
     (if truthy (snd cell) then
        (case num_fullmatch (strip (py_str (snd cell))) of
           Some (Number m k) \<Rightarrow>
             if map_of pumping_data ''pumping_time'' = None \<and> - 50 * 10 ^ k < m \<and> m < 0
             then dict_set pumping_data ''pumping_time'' (Number m k)
             else if map_of pumping_data ''pumping_rate'' = None \<and> m < - 100 * 10 ^ k
             then dict_set pumping_data ''pumping_rate'' (Number m k)
             else pumping_data
         | _ \<Rightarrow> pumping_data)
      else pumping_data)"

text \<open>
  The cells of the scanned window, in scanning order: rows \<open>start_row + 1\<close> to
  \<open>start_row + 14\<close>, and in each row the columns G to P.
\<close>

definition window_cells :: "int \<Rightarrow> (int \<times> string) list" where
  "window_cells start =
     concat (map (\<lambda>row_offset.
                    map (\<lambda>col_offset. (start + row_offset, col_offset))
                      [''G'', ''H'', ''I'', ''J'', ''K'', ''L'', ''M'', ''N'', ''O'', ''P''])
               [1, 2, 3, 4, 5, 6, 7, 8, 9, 10, 11, 12, 13, 14])"

text \<open>The second phase runs when one of the two numeric fields is still missing.\<close>

definition second_phase ::
  "sheet \<Rightarrow> (string \<times> pumping_value) list \<Rightarrow> (string \<times> pumping_value) list" where
  "second_phase sheet_data pumping_data =
     (if map_of pumping_data ''pumping_time'' = None \<or>
         map_of pumping_data ''pumping_rate'' = None
      then foldl fallback_cell pumping_data sheet_data
      else pumping_data)"

text \<open>
  \<^verbatim>\<open>extract_pumping_data\<close>: nothing without a structure or a start row (a start row of
  0 is falsy); otherwise the first phase over the window, then the second phase.
\<close>

definition extract_pumping_data ::
  "sheet \<Rightarrow> notes_structure option \<Rightarrow> (string \<times> pumping_value) list" where
  "extract_pumping_data sheet_data structure =
     (case structure of
        None \<Rightarrow> []
      | Some st \<Rightarrow>
          (case notes_start_row st of
             None \<Rightarrow> []
           | Some start \<Rightarrow>
               if start = 0 then []
               else second_phase sheet_data
                      (foldl (window_cell sheet_data) [] (window_cells start))))"

section \<open>Decimal rendering and parsing\<close>

lemma isdigit_char_of: "(n::nat) < 10 \<Longrightarrow> isdigit (char_of (48 + n))"
  by (simp add: isdigit_def)

lemma digit_val_char_of: "(n::nat) < 10 \<Longrightarrow> digit_val (char_of (48 + n)) = int n"
  by (simp add: digit_val_def)

lemma str_of_nat_nonempty: "str_of_nat n \<noteq> []"
  by (subst str_of_nat.simps) simp

lemma str_of_nat_isdigit: "list_all isdigit (str_of_nat n)"
proof (induction n rule: str_of_nat.induct)
  case (1 n)
  show ?case
  proof (cases "n < 10")
    case True
    then show ?thesis by (subst str_of_nat.simps) (simp add: isdigit_char_of)
  next
    case False
    with 1 show ?thesis by (subst str_of_nat.simps) (simp add: isdigit_char_of)
  qed
qed

lemma int_of_digits_snoc: "int_of_digits (s @ [c]) = 10 * int_of_digits s + digit_val c"
  by (simp add: int_of_digits_def)

lemma int_of_digits_str_of_nat: "int_of_digits (str_of_nat n) = int n"
proof (induction n rule: str_of_nat.induct)
  case (1 n)
  show ?case
  proof (cases "n < 10")
    case True
    then show ?thesis
      by (subst str_of_nat.simps) (simp add: int_of_digits_def digit_val_char_of)
  next
    case False
    with 1 have "int_of_digits (str_of_nat (n div 10)) = int (n div 10)" by simp
    moreover have "10 * int (n div 10) + int (n mod 10) = int n" by presburger
    ultimately show ?thesis using False
      by (subst str_of_nat.simps) (simp add: int_of_digits_snoc digit_val_char_of)
  qed
qed



lemma isalpha_not_isdigit: "isalpha c \<Longrightarrow> \<not> isdigit c"
  by (auto simp: isalpha_def isdigit_def)

lemma filter_id_list_all: "list_all P xs \<Longrightarrow> filter P xs = xs"
  by (induction xs) auto

lemma filter_none_list_all: "list_all Q xs \<Longrightarrow> (\<And>x. Q x \<Longrightarrow> \<not> P x) \<Longrightarrow> filter P xs = []"
  by (induction xs) auto

lemma str_of_int_pos: "0 \<le> i \<Longrightarrow> str_of_int i = str_of_nat (nat i)"
  by (simp add: str_of_int_def)

section \<open>Coordinate codec: results\<close>

text \<open>
  Claim C8 (coordinate round-trip). For every single-letter column and every positive row
  number, \<^verbatim>\<open>split_cell_reference\<close> applied to the column letter followed by the
  decimal rendering of the row returns exactly that column and that row.
\<close>

theorem split_cell_reference_roundtrip:
  assumes "isalpha c" and "0 < row"
  shows "split_cell_reference (c # str_of_int row) = Inr ([c], row)"
proof -
  let ?ds = "str_of_nat (nat row)"
  have s: "str_of_int row = ?ds" using assms(2) by (simp add: str_of_int_pos)
  have d: "filter isdigit ?ds = ?ds" by (rule filter_id_list_all [OF str_of_nat_isdigit])
  have a: "filter isalpha ?ds = []"
    by (rule filter_none_list_all [OF str_of_nat_isdigit]) (auto dest: isalpha_not_isdigit)
  have v: "int_of_digits ?ds = row" using assms(2) by (simp add: int_of_digits_str_of_nat)
  show ?thesis
    using assms(1) isalpha_not_isdigit [OF assms(1)] str_of_nat_nonempty [of "nat row"]
    by (simp add: split_cell_reference_def s d a v)
qed

theorem split_cell_reference_roundtrip_witness:
  "isalpha CHR ''B'' \<and> (0::int) < 12 \<and> split_cell_reference ''B12'' = Inr (''B'', 12)"
proof -
  have a: "isalpha CHR ''B''" by (simp add: isalpha_def)
  have s: "str_of_int 12 = ''12''" by code_simp
  show ?thesis using a split_cell_reference_roundtrip [OF a, of 12] by (simp add: s)
qed




section \<open>Time normalisation: results\<close>









section \<open>Header search: what a scan finds\<close>

lemma scan_row_fst:
  "scan_row p q row cells found = Inr found' \<Longrightarrow> fst found' = Some c \<Longrightarrow>
   fst found = Some c \<or>
   (\<exists>k s. (k, VStr s) \<in> set cells \<and> p (lower (strip s)) \<and>
      split_cell_reference k = Inr (c, row))"
proof (induction cells arbitrary: found)
  case Nil
  then show ?case by simp
next
  case (Cons kv cells)
  obtain k v where kv: "kv = (k, v)" by (cases kv)
  show ?case
  proof (cases v)
    case (VStr s)
    with Cons.prems kv obtain oc orow where sp: "split_cell_reference k = Inr (oc, orow)"
      by (cases "split_cell_reference k") auto
    let ?f = "if orow = row then
                (if p (lower (strip s)) then (Some oc, snd found)
                 else if q (lower (strip s)) then (fst found, Some oc) else found)
              else found"
    from Cons.prems kv VStr sp have "scan_row p q row cells ?f = Inr found'" by simp
    from Cons.IH [OF this Cons.prems(2)]
    show ?thesis using kv VStr sp by (auto split: if_splits)
  next
    case (VInt i)
    with Cons kv show ?thesis by fastforce
  next
    case (VBool b)
    with Cons kv show ?thesis by fastforce
  next
    case VNone
    with Cons kv show ?thesis by fastforce
  qed
qed

lemma scan_row_snd:
  "scan_row p q row cells found = Inr found' \<Longrightarrow> snd found' = Some c \<Longrightarrow>
   snd found = Some c \<or>
   (\<exists>k s. (k, VStr s) \<in> set cells \<and> q (lower (strip s)) \<and> \<not> p (lower (strip s)) \<and>
      split_cell_reference k = Inr (c, row))"
proof (induction cells arbitrary: found)
  case Nil
  then show ?case by simp
next
  case (Cons kv cells)
  obtain k v where kv: "kv = (k, v)" by (cases kv)
  show ?case
  proof (cases v)
    case (VStr s)
    with Cons.prems kv obtain oc orow where sp: "split_cell_reference k = Inr (oc, orow)"
      by (cases "split_cell_reference k") auto
    let ?f = "if orow = row then
                (if p (lower (strip s)) then (Some oc, snd found)
                 else if q (lower (strip s)) then (fst found, Some oc) else found)
              else found"
    from Cons.prems kv VStr sp have "scan_row p q row cells ?f = Inr found'" by simp
    from Cons.IH [OF this Cons.prems(2)]
    show ?thesis using kv VStr sp by (auto split: if_splits)
  next
    case (VInt i)
    with Cons kv show ?thesis by fastforce
  next
    case (VBool b)
    with Cons kv show ?thesis by fastforce
  next
    case VNone
    with Cons kv show ?thesis by fastforce
  qed
qed


lemma scan_row_keeps_fst:
  "scan_row p q row cells found = Inr found' \<Longrightarrow> fst found \<noteq> None \<Longrightarrow> fst found' \<noteq> None"
proof (induction cells arbitrary: found)
  case Nil
  then show ?case by simp
next
  case (Cons kv cells)
  obtain k v where kv: "kv = (k, v)" by (cases kv)
  show ?case
  proof (cases v)
    case (VStr s)
    with Cons.prems kv obtain oc orow where sp: "split_cell_reference k = Inr (oc, orow)"
      by (cases "split_cell_reference k") auto
    let ?f = "if orow = row then
                (if p (lower (strip s)) then (Some oc, snd found)
                 else if q (lower (strip s)) then (fst found, Some oc) else found)
              else found"
    from Cons.prems kv VStr sp have "scan_row p q row cells ?f = Inr found'" by simp
    moreover from Cons.prems(2) have "fst ?f \<noteq> None" by simp
    ultimately show ?thesis by (rule Cons.IH)
  qed (use Cons kv in auto)
qed

lemma scan_row_keeps_snd:
  "scan_row p q row cells found = Inr found' \<Longrightarrow> snd found \<noteq> None \<Longrightarrow> snd found' \<noteq> None"
proof (induction cells arbitrary: found)
  case Nil
  then show ?case by simp
next
  case (Cons kv cells)
  obtain k v where kv: "kv = (k, v)" by (cases kv)
  show ?case
  proof (cases v)
    case (VStr s)
    with Cons.prems kv obtain oc orow where sp: "split_cell_reference k = Inr (oc, orow)"
      by (cases "split_cell_reference k") auto
    let ?f = "if orow = row then
                (if p (lower (strip s)) then (Some oc, snd found)
                 else if q (lower (strip s)) then (fst found, Some oc) else found)
              else found"
    from Cons.prems kv VStr sp have "scan_row p q row cells ?f = Inr found'" by simp
    moreover from Cons.prems(2) have "snd ?f \<noteq> None" by simp
    ultimately show ?thesis by (rule Cons.IH)
  qed (use Cons kv in auto)
qed

lemma scan_row_finds_fst:
  "scan_row p q row cells found = Inr found' \<Longrightarrow> (k, VStr s) \<in> set cells \<Longrightarrow>
   p (lower (strip s)) \<Longrightarrow> split_cell_reference k = Inr (c, row) \<Longrightarrow> fst found' \<noteq> None"
proof (induction cells arbitrary: found)
  case Nil
  then show ?case by simp
next
  case (Cons kv cells)
  obtain k' v where kv: "kv = (k', v)" by (cases kv)
  show ?case
  proof (cases "kv = (k, VStr s)")
    case True
    with Cons.prems have "scan_row p q row cells (Some c, snd found) = Inr found'" by simp
    then show ?thesis by (rule scan_row_keeps_fst) simp
  next
    case False
    with Cons.prems have m: "(k, VStr s) \<in> set cells" by simp
    show ?thesis
    proof (cases v)
      case (VStr s')
      with Cons.prems kv obtain oc orow where sp: "split_cell_reference k' = Inr (oc, orow)"
        by (cases "split_cell_reference k'") auto
      let ?f = "if orow = row then
                  (if p (lower (strip s')) then (Some oc, snd found)
                   else if q (lower (strip s')) then (fst found, Some oc) else found)
                else found"
      from Cons.prems kv VStr sp have "scan_row p q row cells ?f = Inr found'" by simp
      from Cons.IH [OF this m Cons.prems(3,4)] show ?thesis .
    qed (use Cons.prems kv m Cons.IH in auto)
  qed
qed

lemma scan_row_finds_snd:
  "scan_row p q row cells found = Inr found' \<Longrightarrow> (k, VStr s) \<in> set cells \<Longrightarrow>
   q (lower (strip s)) \<Longrightarrow> \<not> p (lower (strip s)) \<Longrightarrow>
   split_cell_reference k = Inr (c, row) \<Longrightarrow> snd found' \<noteq> None"
proof (induction cells arbitrary: found)
  case Nil
  then show ?case by simp
next
  case (Cons kv cells)
  obtain k' v where kv: "kv = (k', v)" by (cases kv)
  show ?case
  proof (cases "kv = (k, VStr s)")
    case True
    with Cons.prems have "scan_row p q row cells (fst found, Some c) = Inr found'" by simp
    then show ?thesis by (rule scan_row_keeps_snd) simp
  next
    case False
    with Cons.prems have m: "(k, VStr s) \<in> set cells" by simp
    show ?thesis
    proof (cases v)
      case (VStr s')
      with Cons.prems kv obtain oc orow where sp: "split_cell_reference k' = Inr (oc, orow)"
        by (cases "split_cell_reference k'") auto
      let ?f = "if orow = row then
                  (if p (lower (strip s')) then (Some oc, snd found)
                   else if q (lower (strip s')) then (fst found, Some oc) else found)
                else found"
      from Cons.prems kv VStr sp have "scan_row p q row cells ?f = Inr found'" by simp
      from Cons.IH [OF this m Cons.prems(3,4,5)] show ?thesis .
    qed (use Cons.prems kv m Cons.IH in auto)
  qed
qed

lemma headers_loop_sound:
  "headers_loop data cells acc = Inr hs \<Longrightarrow> d \<in> set hs \<Longrightarrow>
   d \<in> set acc \<or>
   (\<exists>k v new. (k, v) \<in> set cells \<and> header_of_cell data k v = Inr new \<and> d \<in> set new)"
proof (induction cells arbitrary: acc)
  case Nil
  then show ?case by simp
next
  case (Cons kv cells)
  obtain k v where kv: "kv = (k, v)" by (cases kv)
  with Cons.prems obtain new where new: "header_of_cell data k v = Inr new"
    and rest: "headers_loop data cells (acc @ new) = Inr hs"
    by (cases "header_of_cell data k v") auto
  from Cons.IH [OF rest Cons.prems(2)] show ?case using kv new by auto
qed

lemma headers_loop_complete:
  "headers_loop data cells acc = Inr hs \<Longrightarrow>
   set acc \<subseteq> set hs \<and>
   (\<forall>k v. (k, v) \<in> set cells \<longrightarrow>
      (\<exists>new. header_of_cell data k v = Inr new \<and> set new \<subseteq> set hs))"
proof (induction cells arbitrary: acc)
  case Nil
  then show ?case by simp
next
  case (Cons kv cells)
  obtain k v where kv: "kv = (k, v)" by (cases kv)
  with Cons.prems obtain new where new: "header_of_cell data k v = Inr new"
    and rest: "headers_loop data cells (acc @ new) = Inr hs"
    by (cases "header_of_cell data k v") auto
  from Cons.IH [OF rest] show ?case using kv new by auto
qed


lemma header_of_cell_sound:
  assumes "header_of_cell data k v = Inr new" and "d \<in> set new"
  shows "(\<exists>s row. v = VStr s \<and> lower (strip s) = ''event'' \<and> format d = ''english'' \<and>
            split_cell_reference k = Inr (event_col d, row) \<and> start_row d = row + 1 \<and>
            scan_row (\<lambda>v. v = ''date'') (\<lambda>v. v = ''time'') row data (None, None) =
              Inr (Some (date_col d), Some (time_col d))) \<or>
         (\<exists>s row. v = VStr s \<and> lower (strip s) = ''date'' \<and> prefix ''A'' k \<and>
            format d = ''spanish'' \<and>
            split_cell_reference k = Inr (date_col d, row) \<and> start_row d = row + 1 \<and>
            scan_row (\<lambda>v. v = ''hrs'' \<or> v = ''time'') (\<lambda>v. v = ''event'') row data (None, None) =
              Inr (Some (time_col d), Some (event_col d)))"
  using assms
  by (auto simp: header_of_cell_def Let_def
      split: pyval.splits sum.splits option.splits prod.splits if_splits)


section \<open>Header search: results\<close>

lemma find_timesheet_headers_sound:
  assumes "find_timesheet_headers data = Inr sections" and "d \<in> set sections"
  shows "\<exists>k v new. (k, v) \<in> set data \<and> header_of_cell data k v = Inr new \<and> d \<in> set new"
  using headers_loop_sound [of data data "[]" sections d] assms
  by (simp add: find_timesheet_headers_def)

text \<open>
  Claim C1, as amended. Every section the header search returns is anchored on a row that
  holds the whole role set of the section's own variant: for an english section, string
  cells reading "event", "date" and "time" on that row; for a spanish section, a cell
  reading "date" whose reference starts with \<^verbatim>\<open>A\<close>, a cell reading "hrs" or "time", and
  a cell reading "event". The two role sets overlap ("time" serves both), so the variants
  are not exclusive: one row can yield a section of each.
\<close>

theorem header_row_holds_variant_roles:
  assumes "find_timesheet_headers data = Inr sections" and "d \<in> set sections"
  shows "(format d = ''english'' \<and>
          (\<exists>ke se kd sd kt st.
             (ke, VStr se) \<in> set data \<and> lower (strip se) = ''event'' \<and>
             split_cell_reference ke = Inr (event_col d, start_row d - 1) \<and>
             (kd, VStr sd) \<in> set data \<and> lower (strip sd) = ''date'' \<and>
             split_cell_reference kd = Inr (date_col d, start_row d - 1) \<and>
             (kt, VStr st) \<in> set data \<and> lower (strip st) = ''time'' \<and>
             split_cell_reference kt = Inr (time_col d, start_row d - 1))) \<or>
         (format d = ''spanish'' \<and>
          (\<exists>ke se kd sd kt st.
             (kd, VStr sd) \<in> set data \<and> lower (strip sd) = ''date'' \<and> prefix ''A'' kd \<and>
             split_cell_reference kd = Inr (date_col d, start_row d - 1) \<and>
             (kt, VStr st) \<in> set data \<and>
             (lower (strip st) = ''hrs'' \<or> lower (strip st) = ''time'') \<and>
             split_cell_reference kt = Inr (time_col d, start_row d - 1) \<and>
             (ke, VStr se) \<in> set data \<and> lower (strip se) = ''event'' \<and>
             split_cell_reference ke = Inr (event_col d, start_row d - 1)))"
proof -
  from find_timesheet_headers_sound [OF assms] obtain k v new where
    kv: "(k, v) \<in> set data" and new: "header_of_cell data k v = Inr new" and d: "d \<in> set new"
    by blast
  from header_of_cell_sound [OF new d] show ?thesis
  proof (elim disjE exE conjE)
    fix s row
    assume v: "v = VStr s" and l: "lower (strip s) = ''event''" and f: "format d = ''english''"
      and sp: "split_cell_reference k = Inr (event_col d, row)" and r: "start_row d = row + 1"
      and sc: "scan_row (\<lambda>v. v = ''date'') (\<lambda>v. v = ''time'') row data (None, None) =
              Inr (Some (date_col d), Some (time_col d))"
    from scan_row_fst [OF sc, of "date_col d"] obtain kd sd where
      "(kd, VStr sd) \<in> set data" "lower (strip sd) = ''date''"
      "split_cell_reference kd = Inr (date_col d, row)" by auto
    moreover from scan_row_snd [OF sc, of "time_col d"] obtain kt st where
      "(kt, VStr st) \<in> set data" "lower (strip st) = ''time''"
      "split_cell_reference kt = Inr (time_col d, row)" by auto
    moreover have "row = start_row d - 1" using r by simp
    ultimately show ?thesis using kv v l f sp by blast
  next
    fix s row
    assume v: "v = VStr s" and l: "lower (strip s) = ''date''" and a: "prefix ''A'' k"
      and f: "format d = ''spanish''"
      and sp: "split_cell_reference k = Inr (date_col d, row)" and r: "start_row d = row + 1"
      and sc: "scan_row (\<lambda>v. v = ''hrs'' \<or> v = ''time'') (\<lambda>v. v = ''event'') row data (None, None) =
              Inr (Some (time_col d), Some (event_col d))"
    from scan_row_fst [OF sc, of "time_col d"] obtain kt st where
      "(kt, VStr st) \<in> set data" "lower (strip st) = ''hrs'' \<or> lower (strip st) = ''time''"
      "split_cell_reference kt = Inr (time_col d, row)" by auto
    moreover from scan_row_snd [OF sc, of "event_col d"] obtain ke se where
      "(ke, VStr se) \<in> set data" "lower (strip se) = ''event''"
      "split_cell_reference ke = Inr (event_col d, row)" by auto
    moreover have "row = start_row d - 1" using r by simp
    ultimately show ?thesis using kv v l f sp a by blast
  qed
qed

text \<open>
  Claim C1 as stated fails: the single header row Date, Time, Event (date in column A)
  yields a spanish and an english section, although the row holds no "hrs" label.
\<close>

theorem one_row_yields_both_variants:
  "find_timesheet_headers
     [(''A5'', VStr ''Date''), (''B5'', VStr ''Time''), (''C5'', VStr ''Event'')] =
   Inr [\<lparr>format = ''spanish'', event_col = ''C'', date_col = ''A'', time_col = ''B'',
         start_row = 6\<rparr>,
        \<lparr>format = ''english'', event_col = ''C'', date_col = ''A'', time_col = ''B'',
         start_row = 6\<rparr>]"
  by code_simp

theorem header_row_holds_variant_roles_witness:
  "find_timesheet_headers
     [(''A5'', VStr ''Date''), (''B5'', VStr ''Time''), (''C5'', VStr ''Event'')] =
   Inr [\<lparr>format = ''spanish'', event_col = ''C'', date_col = ''A'', time_col = ''B'',
         start_row = 6\<rparr>,
        \<lparr>format = ''english'', event_col = ''C'', date_col = ''A'', time_col = ''B'',
         start_row = 6\<rparr>] \<and>
   (\<exists>ke se kd sd kt st.
      (kd, VStr sd) \<in> set [(''A5'', VStr ''Date''), (''B5'', VStr ''Time''), (''C5'', VStr ''Event'')] \<and>
      lower (strip sd) = ''date'' \<and> prefix ''A'' kd \<and>
      split_cell_reference kd = Inr (''A'', 5) \<and>
      (kt, VStr st) \<in> set [(''A5'', VStr ''Date''), (''B5'', VStr ''Time''), (''C5'', VStr ''Event'')] \<and>
      (lower (strip st) = ''hrs'' \<or> lower (strip st) = ''time'') \<and>
      split_cell_reference kt = Inr (''B'', 5) \<and>
      (ke, VStr se) \<in> set [(''A5'', VStr ''Date''), (''B5'', VStr ''Time''), (''C5'', VStr ''Event'')] \<and>
      lower (strip se) = ''event'' \<and>
      split_cell_reference ke = Inr (''C'', 5))"
proof -
  let ?g = "[(''A5'', VStr ''Date''), (''B5'', VStr ''Time''), (''C5'', VStr ''Event'')]"
  let ?sp = "\<lparr>format = ''spanish'', event_col = ''C'', date_col = ''A'', time_col = ''B'',
         start_row = 6\<rparr>"
  let ?en = "\<lparr>format = ''english'', event_col = ''C'', date_col = ''A'', time_col = ''B'',
         start_row = 6\<rparr>"
  have e: "find_timesheet_headers ?g = Inr [?sp, ?en]" by code_simp
  have m: "?sp \<in> set [?sp, ?en]" by simp
  from header_row_holds_variant_roles [OF e m] e show ?thesis by simp
qed

lemma header_of_cell_english:
  assumes l: "lower (strip se) = ''event''"
    and sp: "split_cell_reference ke = Inr (ce, row)"
    and h: "header_of_cell data ke (VStr se) = Inr new"
    and d: "(kd, VStr sd) \<in> set data" "lower (strip sd) = ''date''"
           "split_cell_reference kd = Inr (cd, row)"
    and t: "(kt, VStr st) \<in> set data" "lower (strip st) = ''time''"
           "split_cell_reference kt = Inr (ct, row)"
  shows "\<exists>x. x \<in> set new \<and> format x = ''english'' \<and> event_col x = ce \<and> start_row x = row + 1"
proof -
  let ?sc = "scan_row (\<lambda>v. v = ''date'') (\<lambda>v. v = ''time'') row data (None, None)"
  from h l sp obtain found where sc: "?sc = Inr found"
    by (cases ?sc) (auto simp: header_of_cell_def)
  from scan_row_finds_fst [OF sc d(1) _ d(3)] d(2) obtain c1 where c1: "fst found = Some c1"
    by auto
  from scan_row_finds_snd [OF sc t(1) _ _ t(3)] t(2) obtain c2 where c2: "snd found = Some c2"
    by auto
  from c1 c2 have "found = (Some c1, Some c2)" by (cases found) simp
  with h l sp sc show ?thesis by (auto simp: header_of_cell_def)
qed

text \<open>
  Claim C10. A spanish section is only produced from a cell reading "date" whose reference
  starts with \<^verbatim>\<open>A\<close>: every spanish section returned has such a cell on its header row, in
  its date column; hence a row none of whose "date" cells has a reference starting with
  \<^verbatim>\<open>A\<close> yields no spanish section. The english pattern has no column restriction: an
  "event" cell in any column, with "date" and "time" cells on its row, yields an english
  section anchored on that cell.
\<close>

theorem spanish_header_needs_column_A:
  assumes "find_timesheet_headers data = Inr sections"
  shows "(\<forall>d \<in> set sections. format d = ''spanish'' \<longrightarrow>
            (\<exists>cell_ref s. (cell_ref, VStr s) \<in> set data \<and> lower (strip s) = ''date'' \<and>
               prefix ''A'' cell_ref \<and>
               split_cell_reference cell_ref = Inr (date_col d, start_row d - 1))) \<and>
         (\<forall>row. (\<forall>cell_ref s col. (cell_ref, VStr s) \<in> set data \<and> lower (strip s) = ''date'' \<and>
                    split_cell_reference cell_ref = Inr (col, row) \<longrightarrow> \<not> prefix ''A'' cell_ref) \<longrightarrow>
                 \<not> (\<exists>d \<in> set sections. format d = ''spanish'' \<and> start_row d = row + 1)) \<and>
         (\<forall>ke se ce kd sd cd kt st ct row.
            (ke, VStr se) \<in> set data \<and> lower (strip se) = ''event'' \<and>
            split_cell_reference ke = Inr (ce, row) \<and>
            (kd, VStr sd) \<in> set data \<and> lower (strip sd) = ''date'' \<and>
            split_cell_reference kd = Inr (cd, row) \<and>
            (kt, VStr st) \<in> set data \<and> lower (strip st) = ''time'' \<and>
            split_cell_reference kt = Inr (ct, row) \<longrightarrow>
            (\<exists>d \<in> set sections. format d = ''english'' \<and> event_col d = ce \<and>
               start_row d = row + 1))"
proof -
  have sound: "\<exists>cell_ref s. (cell_ref, VStr s) \<in> set data \<and> lower (strip s) = ''date'' \<and>
               prefix ''A'' cell_ref \<and>
               split_cell_reference cell_ref = Inr (date_col d, start_row d - 1)"
    if d: "d \<in> set sections" and f: "format d = ''spanish''" for d
  proof -
    from find_timesheet_headers_sound [OF assms d] obtain k v new where
      kv: "(k, v) \<in> set data" and new: "header_of_cell data k v = Inr new" and dn: "d \<in> set new"
      by blast
    from header_of_cell_sound [OF new dn] f obtain s row where
      "v = VStr s" "lower (strip s) = ''date''" "prefix ''A'' k"
      "split_cell_reference k = Inr (date_col d, row)" "start_row d = row + 1"
      by auto
    moreover from this have "row = start_row d - 1" by simp
    ultimately show ?thesis using kv by blast
  qed
  have none: "\<not> (\<exists>d \<in> set sections. format d = ''spanish'' \<and> start_row d = row + 1)"
    if r: "\<forall>cell_ref s col. (cell_ref, VStr s) \<in> set data \<and> lower (strip s) = ''date'' \<and>
              split_cell_reference cell_ref = Inr (col, row) \<longrightarrow> \<not> prefix ''A'' cell_ref" for row
  proof
    assume "\<exists>d \<in> set sections. format d = ''spanish'' \<and> start_row d = row + 1"
    then obtain d where d: "d \<in> set sections" "format d = ''spanish''" "start_row d = row + 1"
      by blast
    from sound [OF d(1,2)] obtain cell_ref s where
      "(cell_ref, VStr s) \<in> set data" "lower (strip s) = ''date''" "prefix ''A'' cell_ref"
      "split_cell_reference cell_ref = Inr (date_col d, start_row d - 1)" by blast
    with d(3) r show False by auto
  qed
  have english: "\<exists>d \<in> set sections. format d = ''english'' \<and> event_col d = ce \<and>
               start_row d = row + 1"
    if e: "(ke, VStr se) \<in> set data" "lower (strip se) = ''event''"
          "split_cell_reference ke = Inr (ce, row)"
      and dd: "(kd, VStr sd) \<in> set data" "lower (strip sd) = ''date''"
          "split_cell_reference kd = Inr (cd, row)"
      and tt: "(kt, VStr st) \<in> set data" "lower (strip st) = ''time''"
          "split_cell_reference kt = Inr (ct, row)"
    for ke se ce kd sd cd kt st ct row
  proof -
    from assms have "headers_loop data data [] = Inr sections"
      by (simp add: find_timesheet_headers_def)
    from headers_loop_complete [OF this] e(1) obtain new where
      new: "header_of_cell data ke (VStr se) = Inr new" and sub: "set new \<subseteq> set sections"
      by blast
    from header_of_cell_english [OF e(2,3) new dd tt] sub show ?thesis by blast
  qed
  from sound none english show ?thesis by blast
qed

theorem spanish_header_needs_column_A_witness:
  "find_timesheet_headers
     [(''B5'', VStr ''Date''), (''C5'', VStr ''HRS''), (''D5'', VStr ''Event''),
      (''A8'', VStr ''DATE''), (''B8'', VStr ''Hrs''), (''C8'', VStr ''Event'')] =
   Inr [\<lparr>format = ''spanish'', event_col = ''C'', date_col = ''A'', time_col = ''B'',
         start_row = 9\<rparr>] \<and>
   (\<exists>cell_ref s.
      (cell_ref, VStr s) \<in> set
        [(''B5'', VStr ''Date''), (''C5'', VStr ''HRS''), (''D5'', VStr ''Event''),
         (''A8'', VStr ''DATE''), (''B8'', VStr ''Hrs''), (''C8'', VStr ''Event'')] \<and>
      lower (strip s) = ''date'' \<and> prefix ''A'' cell_ref \<and>
      split_cell_reference cell_ref = Inr (''A'', 8)) \<and>
   find_timesheet_headers
     [(''B5'', VStr ''Event''), (''C5'', VStr ''Date''), (''D5'', VStr ''Time'')] =
   Inr [\<lparr>format = ''english'', event_col = ''B'', date_col = ''C'', time_col = ''D'',
         start_row = 6\<rparr>] \<and>
   (\<exists>d \<in> set [\<lparr>format = ''english'', event_col = ''B'', date_col = ''C'', time_col = ''D'',
         start_row = 6\<rparr>]. format d = ''english'' \<and> event_col d = ''B'' \<and> start_row d = 5 + 1)"
proof -
  let ?g = "[(''B5'', VStr ''Date''), (''C5'', VStr ''HRS''), (''D5'', VStr ''Event''),
      (''A8'', VStr ''DATE''), (''B8'', VStr ''Hrs''), (''C8'', VStr ''Event'')]"
  let ?sp = "\<lparr>format = ''spanish'', event_col = ''C'', date_col = ''A'', time_col = ''B'',
         start_row = 9\<rparr>"
  let ?h = "[(''B5'', VStr ''Event''), (''C5'', VStr ''Date''), (''D5'', VStr ''Time'')]"
  let ?en = "\<lparr>format = ''english'', event_col = ''B'', date_col = ''C'', time_col = ''D'',
         start_row = 6\<rparr>"
  have e: "find_timesheet_headers ?g = Inr [?sp]" by code_simp
  from spanish_header_needs_column_A [OF e]
  have "\<forall>d \<in> set [?sp]. format d = ''spanish'' \<longrightarrow>
            (\<exists>cell_ref s. (cell_ref, VStr s) \<in> set ?g \<and> lower (strip s) = ''date'' \<and>
               prefix ''A'' cell_ref \<and>
               split_cell_reference cell_ref = Inr (date_col d, start_row d - 1))"
    by (rule conjunct1)
  then have a: "\<exists>cell_ref s. (cell_ref, VStr s) \<in> set ?g \<and> lower (strip s) = ''date'' \<and>
               prefix ''A'' cell_ref \<and>
               split_cell_reference cell_ref = Inr (''A'', 8)"
    by simp
  have f: "find_timesheet_headers ?h = Inr [?en]" by code_simp
  have l: "lower (strip ''Event'') = ''event''" "lower (strip ''Date'') = ''date''"
    "lower (strip ''Time'') = ''time''" by code_simp+
  have s: "split_cell_reference ''B5'' = Inr (''B'', 5)"
    "split_cell_reference ''C5'' = Inr (''C'', 5)"
    "split_cell_reference ''D5'' = Inr (''D'', 5)" by code_simp+
  from spanish_header_needs_column_A [OF f]
  have "\<forall>ke se ce kd sd cd kt st ct row.
            (ke, VStr se) \<in> set ?h \<and> lower (strip se) = ''event'' \<and>
            split_cell_reference ke = Inr (ce, row) \<and>
            (kd, VStr sd) \<in> set ?h \<and> lower (strip sd) = ''date'' \<and>
            split_cell_reference kd = Inr (cd, row) \<and>
            (kt, VStr st) \<in> set ?h \<and> lower (strip st) = ''time'' \<and>
            split_cell_reference kt = Inr (ct, row) \<longrightarrow>
            (\<exists>d \<in> set [?en]. format d = ''english'' \<and> event_col d = ce \<and>
               start_row d = row + 1)"
    by (elim conjE)
  from this [rule_format, of "''B5''" "''Event''" "''B''" 5 "''C5''" "''Date''" "''C''"
      "''D5''" "''Time''" "''D''"]
  have b: "\<exists>d \<in> set [?en]. format d = ''english'' \<and> event_col d = ''B'' \<and>
               start_row d = 5 + 1"
    using l s by simp
  from e a f b show ?thesis by (intro conjI)
qed

section \<open>The row walk\<close>















section \<open>Category classifier: results\<close>






lemma distinct_category_names: "distinct category_names"
  by (simp add: category_names_def)




lemma append_to_map:
  "distinct names \<Longrightarrow>
   append_to (map (\<lambda>c. (c, f c)) names) k x =
   map (\<lambda>c. (c, if c = k then f c @ [x] else f c)) names"
  by (simp add: append_to_def)





section \<open>Labelled fields: results\<close>

lemma map_of_dict_set:
  "map_of (dict_set d key v) k = (if k = key then Some v else map_of d k)"
  by (induction d key v rule: dict_set.induct) auto

text \<open>
  The labelled-inline loop of \<^verbatim>\<open>extract_timesheet_header\<close>: a field it sets holds the
  trimmed text after the first colon, longer than one character and different from the
  field name that matched.
\<close>

lemma inline_loop_keeps:
  "map_of header_data k = Some v \<Longrightarrow> map_of (inline_loop value_clean fs header_data) k = Some v"
proof (induction fs arbitrary: header_data)
  case Nil
  then show ?case by simp
next
  case (Cons f fs)
  obtain field_key field_name where f: "f = (field_key, field_name)" by (cases f)
  show ?case unfolding f inline_loop.simps
    by (rule Cons.IH) (use Cons.prems in \<open>auto simp: map_of_dict_set Let_def\<close>)
qed

lemma inline_loop_rejects:
  "map_of header_data k = None \<Longrightarrow>
   map_of (inline_loop value_clean fs header_data) k = Some v \<Longrightarrow>
   v = strip (after_first_colon value_clean) \<and> 1 < length v \<and>
   (\<exists>field_name. (k, field_name) \<in> set fs \<and> v \<noteq> field_name \<and>
      sublist field_name value_clean)"
proof (induction fs arbitrary: header_data)
  case Nil
  then show ?case by simp
next
  case (Cons f fs)
  obtain field_key field_name where f: "f = (field_key, field_name)" by (cases f)
  let ?v = "strip (after_first_colon value_clean)"
  let ?sets = "map_of header_data field_key = None \<and> sublist field_name value_clean \<and>
           CHR '':'' \<in> set value_clean \<and> ?v \<noteq> [] \<and> ?v \<noteq> field_name \<and> 1 < length ?v"
  let ?next = "if ?sets then dict_set header_data field_key ?v else header_data"
  have step: "inline_loop value_clean (f # fs) header_data =
              inline_loop value_clean fs ?next"
    by (simp add: f Let_def)
  show ?case
  proof (cases "?sets \<and> field_key = k")
    case True
    then have "map_of ?next k = Some ?v" by (auto simp: map_of_dict_set)
    from inline_loop_keeps [OF this] Cons.prems(2) step have "v = ?v" by simp
    with True f show ?thesis by auto
  next
    case False
    with Cons.prems(1) have "map_of ?next k = None" by (auto simp: map_of_dict_set)
    from Cons.IH [OF this] Cons.prems(2) step show ?thesis by auto
  qed
qed

lemma num_search_number: "num_search s = Some v \<Longrightarrow> \<exists>m k. v = Number m k"
  by (induction s) (auto simp: float_of_token_def Let_def split: if_splits)

lemma foldl_preserves:
  "P a \<Longrightarrow> (\<And>a x. P a \<Longrightarrow> P (f a x)) \<Longrightarrow> P (foldl f a xs)"
  by (induction xs arbitrary: a) auto

lemma patterns_loop_no_text:
  assumes "\<forall>k t. map_of pumping_data k = Some (Text t) \<longrightarrow>
             k \<noteq> ''pumping_time'' \<and> k \<noteq> ''pumping_rate''"
  shows "\<forall>k t. map_of (patterns_loop sheet_data col_offset current_row value_clean fs
                          pumping_data) k = Some (Text t) \<longrightarrow>
             k \<noteq> ''pumping_time'' \<and> k \<noteq> ''pumping_rate''"
  using assms
proof (induction fs arbitrary: pumping_data)
  case Nil
  then show ?case by simp
next
  case (Cons f fs)
  obtain field_key field_name where f: "f = (field_key, field_name)" by (cases f)
  let ?next = "if sublist field_name value_clean then
          (case map_of sheet_data (col_offset @ str_of_int (current_row + 1)) of
             None \<Rightarrow> pumping_data
           | Some field_value \<Rightarrow>
               if truthy field_value then
                 (let field_value_clean = strip (py_str field_value) in
                  if field_key = ''pumping_time'' \<or> field_key = ''pumping_rate'' then
                    (case num_search field_value_clean of
                       Some num \<Rightarrow> dict_set pumping_data field_key num
                     | None \<Rightarrow> pumping_data)
                  else dict_set pumping_data field_key (Text field_value_clean))
               else pumping_data)
        else pumping_data"
  have inv: "\<forall>k t. map_of ?next k = Some (Text t) \<longrightarrow>
               k \<noteq> ''pumping_time'' \<and> k \<noteq> ''pumping_rate''"
  proof (intro allI impI)
    fix k t
    assume "map_of ?next k = Some (Text t)"
    with Cons.prems [rule_format, of k t]
    show "k \<noteq> ''pumping_time'' \<and> k \<noteq> ''pumping_rate''"
      by (auto simp: map_of_dict_set Let_def split: if_splits option.splits
          dest: num_search_number)
  qed
  have "patterns_loop sheet_data col_offset current_row value_clean (f # fs) pumping_data =
        patterns_loop sheet_data col_offset current_row value_clean fs ?next"
    by (simp add: f)
  with Cons.IH [OF inv] show ?case by simp
qed

lemma window_cell_no_text:
  assumes "\<forall>k t. map_of pumping_data k = Some (Text t) \<longrightarrow>
             k \<noteq> ''pumping_time'' \<and> k \<noteq> ''pumping_rate''"
  shows "\<forall>k t. map_of (window_cell sheet_data pumping_data rc) k = Some (Text t) \<longrightarrow>
             k \<noteq> ''pumping_time'' \<and> k \<noteq> ''pumping_rate''"
proof (cases "map_of sheet_data (snd rc @ str_of_int (fst rc))")
  case None
  with assms show ?thesis by (simp add: window_cell_def)
next
  case (Some val)
  show ?thesis
  proof (cases "truthy val")
    case True
    with Some have "window_cell sheet_data pumping_data rc =
        patterns_loop sheet_data (snd rc) (fst rc) (strip (py_str val)) field_patterns
          pumping_data"
      by (simp add: window_cell_def)
    with patterns_loop_no_text [OF assms] show ?thesis by simp
  next
    case False
    with Some assms show ?thesis by (simp add: window_cell_def)
  qed
qed

lemma fallback_cell_no_text:
  assumes "\<forall>k t. map_of pumping_data k = Some (Text t) \<longrightarrow>
             k \<noteq> ''pumping_time'' \<and> k \<noteq> ''pumping_rate''"
  shows "\<forall>k t. map_of (fallback_cell pumping_data cell) k = Some (Text t) \<longrightarrow>
             k \<noteq> ''pumping_time'' \<and> k \<noteq> ''pumping_rate''"
proof (intro allI impI)
  fix k t
  assume "map_of (fallback_cell pumping_data cell) k = Some (Text t)"
  with assms [rule_format, of k t]
  show "k \<noteq> ''pumping_time'' \<and> k \<noteq> ''pumping_rate''"
    by (auto simp: fallback_cell_def map_of_dict_set
        split: if_splits option.splits pumping_value.splits)
qed

text \<open>
  Whatever the sheet, \<^verbatim>\<open>extract_pumping_data\<close> never stores a text under
  \<^verbatim>\<open>pumping_time\<close> or \<^verbatim>\<open>pumping_rate\<close>: the two fields hold a number or stay unset.
\<close>

lemma extract_pumping_data_no_text:
  "map_of (extract_pumping_data sheet_data structure) k = Some (Text t) \<Longrightarrow>
   k \<noteq> ''pumping_time'' \<and> k \<noteq> ''pumping_rate''"
proof -
  let ?I = "\<lambda>pd. \<forall>k t. map_of pd k = Some (Text t) \<longrightarrow>
               k \<noteq> ''pumping_time'' \<and> k \<noteq> ''pumping_rate''"
  have e: "?I []" by simp
  have w: "?I (foldl (window_cell sheet_data) [] cells)" for cells
    using e
  proof (rule foldl_preserves [where P = ?I])
    show "?I (window_cell sheet_data a x)" if "?I a" for a x
      using that by (rule window_cell_no_text)
  qed
  have fb: "?I (foldl fallback_cell pd cells)" if p: "?I pd" for pd cells
    using p
  proof (rule foldl_preserves [where P = ?I])
    show "?I (fallback_cell a x)" if "?I a" for a x
      using that by (rule fallback_cell_no_text)
  qed
  have sp: "?I (second_phase sheet_data pd)" if p: "?I pd" for pd
  proof (cases "map_of pd ''pumping_time'' = None \<or> map_of pd ''pumping_rate'' = None")
    case True
    then have "second_phase sheet_data pd = foldl fallback_cell pd sheet_data"
      unfolding second_phase_def by (rule if_P)
    with fb [OF p] show ?thesis by simp
  next
    case False
    then have "second_phase sheet_data pd = pd"
      unfolding second_phase_def by (rule if_not_P)
    with p show ?thesis by simp
  qed
  have "?I (extract_pumping_data sheet_data structure)"
  proof (cases "structure")
    case None
    then have "extract_pumping_data sheet_data structure = []"
      by (simp add: extract_pumping_data_def)
    with e show ?thesis by simp
  next
    case st: (Some st)
    show ?thesis
    proof (cases "notes_start_row st")
      case None
      with st have "extract_pumping_data sheet_data structure = []"
        by (simp add: extract_pumping_data_def)
      with e show ?thesis by simp
    next
      case (Some start)
      show ?thesis
      proof (cases "start = 0")
        case True
        with Some st have "extract_pumping_data sheet_data structure = []"
          by (simp add: extract_pumping_data_def)
        with e show ?thesis by simp
      next
        case False
        with Some st have "extract_pumping_data sheet_data structure =
            second_phase sheet_data (foldl (window_cell sheet_data) [] (window_cells start))"
          by (simp add: extract_pumping_data_def)
        with sp [OF w] show ?thesis by simp
      qed
    qed
  qed
  then show "map_of (extract_pumping_data sheet_data structure) k = Some (Text t) \<Longrightarrow>
   k \<noteq> ''pumping_time'' \<and> k \<noteq> ''pumping_rate''" by blast
qed

text \<open>
  Claim C5 says that a value below a "Pumping Time" or "Pumping Rate" label in which no
  number is found is stored as its trimmed text, so that the field is still set. The code
  does not do so: with "N/A" below "Pumping Time" the field stays unset, and here the
  whole result is empty.
\<close>

theorem pumping_time_left_unset:
  "extract_pumping_data
     [(''G1'', VStr ''General Notes''), (''G2'', VStr ''Pumping Time''), (''G3'', VStr ''N/A'')]
     (Some \<lparr>special_notes_found = False, general_notes_found = True,
            special_notes_col = None, general_notes_col = Some ''G'',
            notes_start_row = Some 1\<rparr>) = []"
  by code_simp


text \<open>
  Claim C7 says that the labelled-inline strategy discards a candidate value that is
  empty, has a single character or equals the label, wherever it is used. The loop of
  \<^verbatim>\<open>extract_timesheet_header\<close> does (\<open>inline_loop_rejects\<close> above);
  \<^verbatim>\<open>extract_operational_data\<close> does not: it stores the empty text after
  "Terminal:", the single character after "Terminal: X" and the label after "NOTE: NOTE".
\<close>

theorem operational_data_keeps_degenerate_values:
  "extract_operational_data [(''A1'', VStr ''Terminal:'')] = [(''terminal'', [])] \<and>
   extract_operational_data [(''A1'', VStr ''Terminal: X'')] = [(''terminal'', ''X'')] \<and>
   extract_operational_data [(''A1'', VStr ''NOTE: NOTE'')] = [(''note'', ''NOTE'')]"
  by code_simp

end
